theory Spec2Isabelle
  imports Complex_Main "HOL-Library.Multiset" "HOL-Library.AList"
begin

section \<open>Exceptions, paths and the file system seen by the scan\<close>

text \<open>
  The exceptions that matter to \<^verbatim>\<open>main.py\<close>. \<open>OSError\<close> stands for \<^verbatim>\<open>OSError\<close> and each of
  its subclasses other than \<^verbatim>\<open>PermissionError\<close> (\<^verbatim>\<open>FileNotFoundError\<close>, ...); the string is
  the text of the exception. \<open>OtherError\<close> stands for an exception of any class outside the
  \<^verbatim>\<open>OSError\<close> hierarchy (a \<^verbatim>\<open>ValueError\<close>, say).
\<close>

datatype exn =
    OSError string
  | PermissionError string
  | OtherError string
  | ZeroDivisionError
  | OverflowError



text \<open>
  A directory entry. A file that is neither a directory nor a symbolic link carries what
  \<^verbatim>\<open>filepath.stat().st_size\<close> does on it (an exception or a byte count) and what
  \<^verbatim>\<open>magika.identify_path(filepath)\<close> followed by \<^verbatim>\<open>result.output.label\<close> does on it (an
  exception or a label): the classifier is an external collaborator, given here by its
  outcome on each file. A symbolic link carries what it points to, if anything. A directory
  that cannot be listed is a directory with no entries: \<^verbatim>\<open>os.walk\<close> ignores the error of
  \<^verbatim>\<open>scandir\<close> (its \<^verbatim>\<open>onerror\<close> is \<^verbatim>\<open>None\<close>).
\<close>

datatype entry =
    File string "exn + nat" "exn + string"
  | Symlink string "entry option"
  | Directory string "entry list"







section \<open>The scan\<close>











section \<open>The files of a tree\<close>















section \<open>Floating point\<close>

text \<open>
  \<^verbatim>\<open>format_size\<close> and \<^verbatim>\<open>display_results\<close> compute with Python floats, which are IEEE 754
  doubles. A finite double is modelled by the rational number it denotes; an operation is
  the exact operation followed by rounding to the nearest double, ties to the even
  significand. Infinities and NaN do not arise: the conversions that would overflow raise
  \<^verbatim>\<open>OverflowError\<close> instead.
\<close>

text \<open>The number of binary digits of a positive integer (\<^verbatim>\<open>int.bit_length\<close>).\<close>

function bit_length :: "int \<Rightarrow> int" where
  "bit_length n = (if n \<le> 0 then 0 else 1 + bit_length (n div 2))"
  by pat_completeness auto
termination
  by (relation "measure nat") auto

declare bit_length.simps [simp del]

definition pow2 :: "int \<Rightarrow> rat" where
  "pow2 e = (if 0 \<le> e then of_int (2 ^ nat e) else 1 / of_int (2 ^ nat (- e)))"

text \<open>For \<open>x > 0\<close>, the exponent \<open>k\<close> with \<open>2\<^sup>k \<le> x < 2\<^sup>k\<^sup>+\<^sup>1\<close>.\<close>

definition ilog2 :: "rat \<Rightarrow> int" where
  "ilog2 x =
     (let (p, q) = quotient_of x;
          k = bit_length p - bit_length q
      in if pow2 k \<le> x then k else k - 1)"

definition round_half_even :: "rat \<Rightarrow> int" where
  "round_half_even x =
     (let f = \<lfloor>x\<rfloor>; r = x - of_int f
      in if r < 1 / 2 then f
         else if 1 / 2 < r then f + 1
         else if even f then f else f + 1)"

text \<open>
  Rounding to a double: 53 significant bits, and no bit below \<open>2\<^sup>-\<^sup>1\<^sup>0\<^sup>7\<^sup>4\<close> (the subnormal
  range).
\<close>

definition round_double :: "rat \<Rightarrow> rat" where
  "round_double x =
     (if x = 0 then 0
      else let e = max (ilog2 \<bar>x\<bar> - 52) (- 1074);
               m = round_half_even (\<bar>x\<bar> / pow2 e)
           in sgn x * of_int m * pow2 e)"

text \<open>
  The conversion of an exact value to a float where Python raises on overflow
  (\<^verbatim>\<open>float(n)\<close> of an \<^verbatim>\<open>int\<close>, \<^verbatim>\<open>int / int\<close>): the rounded value must be below \<open>2\<^sup>1\<^sup>0\<^sup>2\<^sup>4\<close>.
\<close>

definition to_double :: "rat \<Rightarrow> exn + rat" where
  "to_double x =
     (let y = round_double x
      in if y \<noteq> 0 \<and> 1024 \<le> ilog2 \<bar>y\<bar> then Inl OverflowError else Inr y)"

text \<open>\<^verbatim>\<open>a / b\<close> on two \<^verbatim>\<open>int\<close>s: the quotient, correctly rounded.\<close>

definition py_truediv :: "int \<Rightarrow> int \<Rightarrow> exn + rat" where
  "py_truediv a b = (if b = 0 then Inl ZeroDivisionError else to_double (of_int a / of_int b))"

text \<open>The decimal digits of a natural number, given as an \<open>int\<close>.\<close>

function digits :: "int \<Rightarrow> string" where
  "digits n =
     (if n < 10 then [''0123456789'' ! nat n]
      else digits (n div 10) @ [''0123456789'' ! nat (n mod 10)])"
  by pat_completeness auto
termination
  by (relation "measure nat") auto

declare digits.simps [simp del]

text \<open>
  \<^verbatim>\<open>f"{x:.2f}"\<close> of a float: the exact value of \<open>x\<close> rounded to two decimals, ties to the even
  digit, with a minus sign for a negative \<open>x\<close>.
\<close>

definition format_2f :: "rat \<Rightarrow> string" where
  "format_2f x =
     (let n = round_half_even (\<bar>x\<bar> * 100)
      in (if x < 0 then ''-'' else []) @ digits (n div 100) @ ''.'' @
         digits (n mod 100 div 10) @ digits (n mod 10))"

section \<open>Formatting a size\<close>

text \<open>
  The variable \<^verbatim>\<open>size_bytes\<close> holds the \<^verbatim>\<open>int\<close> argument in the first iteration and a float
  after the first division.
\<close>

datatype number = PyInt int | PyFloat rat

text \<open>\<^verbatim>\<open>size_bytes < 1024.0\<close>; Python compares an \<^verbatim>\<open>int\<close> with a float exactly.\<close>

fun less_1024 :: "number \<Rightarrow> bool" where
  "less_1024 (PyInt n) = (n < 1024)"
| "less_1024 (PyFloat x) = (x < 1024)"

text \<open>Formatting with \<^verbatim>\<open>.2f\<close> and dividing by a float both convert an \<^verbatim>\<open>int\<close> to a float first.\<close>

fun float_of :: "number \<Rightarrow> exn + rat" where
  "float_of (PyInt n) = to_double (of_int n)"
| "float_of (PyFloat x) = Inr x"

definition format_number :: "number \<Rightarrow> exn + string" where
  "format_number v = (case float_of v of Inl e \<Rightarrow> Inl e | Inr x \<Rightarrow> Inr (format_2f x))"

definition div_1024 :: "number \<Rightarrow> exn + number" where
  "div_1024 v =
     (case float_of v of Inl e \<Rightarrow> Inl e | Inr x \<Rightarrow> Inr (PyFloat (round_double (x / 1024))))"

fun format_size_loop :: "string list \<Rightarrow> number \<Rightarrow> exn + string" where
  "format_size_loop [] size_bytes =
     (case format_number size_bytes of Inl e \<Rightarrow> Inl e | Inr s \<Rightarrow> Inr (s @ '' PB''))"
| "format_size_loop (unit # units) size_bytes =
     (if less_1024 size_bytes
      then (case format_number size_bytes of
              Inl e \<Rightarrow> Inl e
            | Inr s \<Rightarrow> Inr (s @ '' '' @ unit))
      else (case div_1024 size_bytes of
              Inl e \<Rightarrow> Inl e
            | Inr v \<Rightarrow> format_size_loop units v))"

definition format_size :: "int \<Rightarrow> exn + string" where
  "format_size size_bytes =
     format_size_loop [''B'', ''KB'', ''MB'', ''GB'', ''TB''] (PyInt size_bytes)"

text \<open>
  The unit \<^verbatim>\<open>format_size\<close> ends with for a float value \<open>x\<close>, as a number of divisions, and its
  name.
\<close>

definition unit_index :: "rat \<Rightarrow> nat" where
  "unit_index x =
     (if x < 1024 then 0 else if x < 1024 ^ 2 then 1 else if x < 1024 ^ 3 then 2
      else if x < 1024 ^ 4 then 3 else if x < 1024 ^ 5 then 4 else 5)"

definition unit_names :: "string list" where
  "unit_names = [''B'', ''KB'', ''MB'', ''GB'', ''TB'', ''PB'']"

section \<open>The report\<close>

definition ljust :: "nat \<Rightarrow> string \<Rightarrow> string" where
  "ljust w s = s @ replicate (w - length s) CHR '' ''"

definition rjust :: "nat \<Rightarrow> string \<Rightarrow> string" where
  "rjust w s = replicate (w - length s) CHR '' '' @ s"

definition rule_line :: string where
  "rule_line = replicate 70 CHR ''=''"

text \<open>\<^verbatim>\<open>f"{file_type:<30} {formatted_size:<20} {percentage:>9.2f}%"\<close>\<close>

definition table_row :: "string \<Rightarrow> string \<Rightarrow> rat \<Rightarrow> string" where
  "table_row file_type formatted_size percentage =
     ljust 30 file_type @ '' '' @ ljust 20 formatted_size @ '' '' @
     rjust 9 (format_2f percentage) @ ''%''"

definition header_lines :: "string list" where
  "header_lines =
     [[], rule_line,
      ljust 30 ''File Type'' @ '' '' @ ljust 20 ''Size'' @ '' '' @ rjust 10 ''Percentage'',
      rule_line]"

definition total_lines :: "string \<Rightarrow> string list" where
  "total_lines formatted_total =
     [rule_line,
      ljust 30 ''Total'' @ '' '' @ ljust 20 formatted_total @ '' '' @ rjust 10 ''100.00%'',
      rule_line, []]"

text \<open>
  The loop over the sorted items: the lines printed, and the exception that ended the loop,
  if any. The percentage is computed before the size is formatted. A size is at most the
  total, so the quotient is at most 1 and the product with 100 is finite.
\<close>

fun print_rows :: "nat \<Rightarrow> (string \<times> nat) list \<Rightarrow> string list \<times> exn option" where
  "print_rows total_size [] = ([], None)"
| "print_rows total_size ((file_type, sz) # rest) =
     (case py_truediv (int sz) (int total_size) of
        Inl e \<Rightarrow> ([], Some e)
      | Inr ratio \<Rightarrow>
          (let percentage = round_double (ratio * 100) in
           case format_size (int sz) of
             Inl e \<Rightarrow> ([], Some e)
           | Inr formatted_size \<Rightarrow>
               (let (lines, r) = print_rows total_size rest
                in (table_row file_type formatted_size percentage # lines, r))))"

text \<open>
  \<^verbatim>\<open>sorted(file_type_sizes.items(), key=lambda x: x[1], reverse=True)\<close>: a stable sort by
  decreasing size, items of equal size staying in dictionary order.
\<close>

definition sorted_items :: "(string \<times> nat) list \<Rightarrow> (string \<times> nat) list" where
  "sorted_items type_sizes = sort_key (\<lambda>x. - int (snd x)) type_sizes"

text \<open>
  \<^verbatim>\<open>display_results\<close>: the lines written to standard output and the exception raised, if
  any.
\<close>

definition display_results :: "(string \<times> nat) list \<Rightarrow> string list \<times> exn option" where
  "display_results type_sizes =
     (if type_sizes = [] then ([''No files found.''], None)
      else
        let total_size = sum_list (map snd type_sizes)
        in case print_rows total_size (sorted_items type_sizes) of
             (rows, Some e) \<Rightarrow> (header_lines @ rows, Some e)
           | (rows, None) \<Rightarrow>
               (case format_size (int total_size) of
                  Inl e \<Rightarrow> (header_lines @ rows @ [rule_line], Some e)
                | Inr formatted_total \<Rightarrow>
                    (header_lines @ rows @ total_lines formatted_total, None)))"

section \<open>The program\<close>





section \<open>A sample tree\<close>



section \<open>Auxiliary notions for the proofs\<close>

text \<open>
  The values a double can take: a significand below \<open>2\<^sup>5\<^sup>3\<close> in absolute value, scaled by a
  power of two not below \<open>2\<^sup>-\<^sup>1\<^sup>0\<^sup>7\<^sup>4\<close>.
\<close>

definition representable :: "rat \<Rightarrow> bool" where
  "representable x \<longleftrightarrow> (\<exists>m t. x = of_int m * pow2 t \<and> \<bar>m\<bar> < 2 ^ 53 \<and> - 1074 \<le> t)"

text \<open>The number of divisions by 1024 a loop over \<open>k\<close> units makes on the float \<open>x\<close>.\<close>

fun steps :: "nat \<Rightarrow> rat \<Rightarrow> nat" where
  "steps 0 x = 0"
| "steps (Suc k) x = (if x < 1024 then 0 else Suc (steps k (x / 1024)))"

text \<open>
  One row of the report when nothing is raised: the label, the formatted size and the float
  \<^verbatim>\<open>(size / total_size) * 100\<close>.
\<close>

definition formatted :: "nat \<Rightarrow> string" where
  "formatted n = (case format_size (int n) of Inl e \<Rightarrow> [] | Inr s \<Rightarrow> s)"

definition percentage :: "nat \<Rightarrow> nat \<Rightarrow> rat" where
  "percentage total_size n =
     (case py_truediv (int n) (int total_size) of
        Inl e \<Rightarrow> 0
      | Inr ratio \<Rightarrow> round_double (ratio * 100))"

definition report_row :: "nat \<Rightarrow> string \<times> nat \<Rightarrow> string" where
  "report_row total_size item =
     table_row (fst item) (formatted (snd item)) (percentage total_size (snd item))"

section \<open>The scan visits the regular files of the tree\<close>

















section \<open>Claims about the scan\<close>










section \<open>Rounding to a double\<close>

text \<open>
  Facts about the model of the floats: \<open>ilog2\<close> is the binary exponent, rounding leaves a
  double as it is, the rounded value of \<open>x\<close> lies between the powers of two around \<open>x\<close>, an
  integer of absolute value at most \<open>2\<^sup>5\<^sup>3\<close> is its own float, and the division of a double
  not below 1024 by 1024 is exact.
\<close>

lemma pow2_powi: "pow2 e = 2 powi e"
  by (simp add: pow2_def power_int_def inverse_eq_divide power_one_over)

lemma pow2_pos [simp]: "0 < pow2 e"
  by (simp add: pow2_powi)

lemma pow2_nonneg [simp]: "0 \<le> pow2 e"
  by (simp add: pow2_powi)

lemma pow2_0: "pow2 0 = 1"
  by (simp add: pow2_def)

lemma pow2_numeral: "pow2 (numeral k) = 2 ^ numeral k"
  by (simp add: pow2_def)

lemma pow2_add: "pow2 (a + b) = pow2 a * pow2 b"
  by (simp add: pow2_powi power_int_add)

lemma pow2_diff: "pow2 (a - b) = pow2 a / pow2 b"
  by (simp add: pow2_powi power_int_diff)

lemma pow2_nat: "0 \<le> e \<Longrightarrow> pow2 e = of_int (2 ^ nat e)"
  by (simp add: pow2_def)

lemma pow2_mono: "a \<le> b \<Longrightarrow> pow2 a \<le> pow2 b"
  by (simp add: pow2_powi power_int_increasing)

lemma pow2_strict_mono: "a < b \<Longrightarrow> pow2 a < pow2 b"
  by (simp add: pow2_powi power_int_strict_increasing)

lemma pow2_less_iff: "pow2 a < pow2 b \<longleftrightarrow> a < b"
  by (meson pow2_mono pow2_strict_mono not_less)

lemma pow2_le_iff: "pow2 a \<le> pow2 b \<longleftrightarrow> a \<le> b"
  by (meson pow2_mono pow2_strict_mono not_less)

lemma bit_length_nonneg: "0 \<le> bit_length n"
proof (induction n rule: bit_length.induct)
  case (1 n)
  then show ?case by (subst bit_length.simps) auto
qed

lemma bit_length_pos: "0 < n \<Longrightarrow> 0 < bit_length n"
  using bit_length_nonneg [of "n div 2"] by (subst bit_length.simps) auto

lemma bit_length_bounds:
  "0 < n \<Longrightarrow> 2 ^ nat (bit_length n - 1) \<le> n \<and> n < 2 ^ nat (bit_length n)"
proof (induction n rule: bit_length.induct)
  case (1 n)
  show ?case
  proof (cases "n = 1")
    case True
    then show ?thesis
      by (simp add: bit_length.simps [of 1] bit_length.simps [of 0])
  next
    case False
    with "1.prems" have half: "0 < n div 2" by simp
    with "1.IH" "1.prems" have IH: "2 ^ nat (bit_length (n div 2) - 1) \<le> n div 2"
      "n div 2 < 2 ^ nat (bit_length (n div 2))" by auto
    have bl: "bit_length n = 1 + bit_length (n div 2)"
      using "1.prems" by (subst bit_length.simps) simp
    from bit_length_pos [OF half] have pos: "0 < bit_length (n div 2)" .
    define k where "k = nat (bit_length (n div 2) - 1)"
    with pos have k: "nat (bit_length (n div 2)) = Suc k" "nat (bit_length n - 1) = Suc k"
      "nat (bit_length n) = Suc (Suc k)"
      unfolding bl by simp_all
    from IH have "2 ^ k \<le> n div 2" "n div 2 < 2 ^ Suc k"
      unfolding k k_def [symmetric] by simp_all
    then have "2 * 2 ^ k \<le> n" "n < 2 * 2 ^ Suc k"
      by linarith+
    then show ?thesis
      unfolding k by simp
  qed
qed

lemma bit_length_pow2:
  assumes "0 < n"
  shows "pow2 (bit_length n - 1) \<le> of_int n" "of_int n < pow2 (bit_length n)"
proof -
  from bit_length_bounds [OF assms] have b: "2 ^ nat (bit_length n - 1) \<le> n"
    "n < 2 ^ nat (bit_length n)" by simp_all
  from bit_length_pos [OF assms] have "0 \<le> bit_length n - 1" "0 \<le> bit_length n" by simp_all
  then have "pow2 (bit_length n - 1) = of_int (2 ^ nat (bit_length n - 1))"
    "pow2 (bit_length n) = of_int (2 ^ nat (bit_length n))"
    by (simp_all only: pow2_nat)
  with b show "pow2 (bit_length n - 1) \<le> of_int n" "of_int n < pow2 (bit_length n)"
    by (simp_all only: of_int_le_iff of_int_less_iff)
qed

lemma ilog2_bounds:
  assumes "0 < x"
  shows "pow2 (ilog2 x) \<le> x" "x < pow2 (ilog2 x + 1)"
proof -
  obtain p q where pq: "quotient_of x = (p, q)" by (cases "quotient_of x")
  then have q: "0 < q" and x: "x = of_int p / of_int q"
    by (simp_all add: quotient_of_denom_pos quotient_of_div)
  with assms have p: "0 < p"
    by (simp add: zero_less_divide_iff)
  define k where "k = bit_length p - bit_length q"
  have il: "ilog2 x = (if pow2 k \<le> x then k else k - 1)"
    by (simp add: ilog2_def pq k_def Let_def)
  note bp = bit_length_pow2 [OF p] and bq = bit_length_pow2 [OF q]
  have qpos: "(0::rat) < of_int q" using q by simp
  have "x < pow2 (bit_length p) / pow2 (bit_length q - 1)"
  proof -
    have "of_int p / of_int q < pow2 (bit_length p) / of_int q"
      using bp(2) qpos by (simp add: divide_strict_right_mono)
    also have "\<dots> \<le> pow2 (bit_length p) / pow2 (bit_length q - 1)"
      by (rule frac_le) (use bq(1) pow2_pos [of "bit_length p"] in \<open>simp_all add: less_imp_le\<close>)
    finally show ?thesis by (simp add: x)
  qed
  also have "\<dots> = pow2 (k + 1)"
    by (simp add: k_def pow2_diff [symmetric] algebra_simps)
  finally have upper: "x < pow2 (k + 1)" .
  have "pow2 (k - 1) = pow2 (bit_length p - 1) / pow2 (bit_length q)"
    by (simp add: k_def pow2_diff [symmetric] algebra_simps)
  also have "\<dots> \<le> of_int p / pow2 (bit_length q)"
    by (rule divide_right_mono) (use bp(1) pow2_pos [of "bit_length q"] in \<open>simp_all add: less_imp_le\<close>)
  also have "\<dots> \<le> of_int p / of_int q"
    by (rule frac_le) (use bq(2) qpos p in \<open>simp_all add: less_imp_le\<close>)
  finally have lower: "pow2 (k - 1) \<le> x" by (simp add: x)
  show "pow2 (ilog2 x) \<le> x"
    using lower by (simp add: il)
  show "x < pow2 (ilog2 x + 1)"
    using upper by (auto simp: il not_le)
qed

lemma ilog2_unique:
  assumes "pow2 k \<le> x" "x < pow2 (k + 1)"
  shows "ilog2 x = k"
proof -
  from assms(1) have pos: "0 < x"
    using pow2_pos [of k] by linarith
  note b = ilog2_bounds [OF pos]
  from b(1) assms(2) have "pow2 (ilog2 x) < pow2 (k + 1)" by linarith
  then have "ilog2 x < k + 1" by (simp add: pow2_less_iff)
  moreover from assms(1) b(2) have "pow2 k < pow2 (ilog2 x + 1)" by linarith
  then have "k < ilog2 x + 1" by (simp add: pow2_less_iff)
  ultimately show ?thesis by simp
qed

lemma round_half_even_of_int [simp]: "round_half_even (of_int m) = m"
  by (simp add: round_half_even_def)

lemma round_half_even_bounds:
  "of_int (round_half_even x) \<le> x + 1 / 2" "x - 1 / 2 \<le> of_int (round_half_even x)"
proof -
  define f where "f = \<lfloor>x\<rfloor>"
  have f: "of_int f \<le> x" "x < of_int f + 1"
    unfolding f_def by linarith+
  have r: "round_half_even x =
      (if x - of_int f < 1 / 2 then f else if 1 / 2 < x - of_int f then f + 1
       else if even f then f else f + 1)"
    by (simp only: round_half_even_def Let_def f_def)
  show "of_int (round_half_even x) \<le> x + 1 / 2"
    unfolding r using f by (simp split: if_splits)
  show "x - 1 / 2 \<le> of_int (round_half_even x)"
    unfolding r using f by (simp split: if_splits)
qed

lemma round_half_even_le:
  assumes "x \<le> of_int N"
  shows "round_half_even x \<le> N"
proof (rule ccontr)
  assume "\<not> round_half_even x \<le> N"
  then have "N + 1 \<le> round_half_even x" by simp
  then have "(of_int N :: rat) + 1 \<le> of_int (round_half_even x)"
    by (metis of_int_1 of_int_add of_int_le_iff)
  with round_half_even_bounds(1) [of x] assms show False by linarith
qed

lemma round_half_even_ge:
  assumes "of_int N \<le> x"
  shows "N \<le> round_half_even x"
proof (rule ccontr)
  assume "\<not> N \<le> round_half_even x"
  then have "round_half_even x + 1 \<le> N" by simp
  then have "(of_int (round_half_even x) :: rat) + 1 \<le> of_int N"
    by (metis of_int_1 of_int_add of_int_le_iff)
  with round_half_even_bounds(2) [of x] assms show False by linarith
qed

lemma round_double_pos:
  assumes "0 < x"
  shows "round_double x =
    of_int (round_half_even (x / pow2 (max (ilog2 x - 52) (- 1074)))) *
      pow2 (max (ilog2 x - 52) (- 1074))"
  using assms by (simp add: round_double_def Let_def)

lemma round_double_minus: "round_double (- x) = - round_double x"
  by (simp add: round_double_def Let_def)

lemma round_double_0 [simp]: "round_double 0 = 0"
  by (simp add: round_double_def)

lemma round_double_abs: "round_double x = sgn x * round_double \<bar>x\<bar>"
proof (cases "0 \<le> x")
  case True
  then show ?thesis by (cases "x = 0") simp_all
next
  case False
  then have "\<bar>x\<bar> = - x" "sgn x = - 1" by simp_all
  then show ?thesis by (simp add: round_double_minus)
qed

lemma round_double_exact_pos:
  assumes "0 < x" "x = of_int m * pow2 t" "m < 2 ^ 53" "- 1074 \<le> t"
  shows "round_double x = x"
proof -
  define L where "L = ilog2 x"
  define e where "e = max (L - 52) (- 1074)"
  note b = ilog2_bounds [OF assms(1), folded L_def]
  from assms(1,2) have mpos: "0 < m"
    using pow2_pos [of t] by (simp add: zero_less_mult_iff)
  have "of_int m < (pow2 53 :: rat)"
    using assms(3) by (simp add: pow2_numeral)
  then have "x < pow2 53 * pow2 t"
    unfolding assms(2) using pow2_pos [of t] by (simp add: mult_strict_right_mono)
  with b(1) have "pow2 L < pow2 (53 + t)" by (simp add: pow2_add)
  then have "L < 53 + t" by (simp add: pow2_less_iff)
  with assms(4) have et: "e \<le> t" by (simp add: e_def)
  have "x / pow2 e = of_int m * pow2 (t - e)"
    by (simp add: assms(2) pow2_diff)
  also have "\<dots> = of_int (m * 2 ^ nat (t - e))"
    using et by (simp add: pow2_nat)
  finally have "round_half_even (x / pow2 e) = m * 2 ^ nat (t - e)"
    by (simp only: round_half_even_of_int)
  then have "round_double x = of_int (m * 2 ^ nat (t - e)) * pow2 e"
    by (simp add: round_double_pos [OF assms(1)] e_def L_def)
  also have "\<dots> = of_int m * (pow2 (t - e) * pow2 e)"
    using et by (simp add: pow2_nat)
  also have "\<dots> = x"
    by (simp add: pow2_add [symmetric] assms(2))
  finally show ?thesis .
qed

lemma round_double_exact:
  assumes "representable x"
  shows "round_double x = x"
proof -
  from assms obtain m t where mt: "x = of_int m * pow2 t" "\<bar>m\<bar> < 2 ^ 53" "- 1074 \<le> t"
    by (auto simp: representable_def)
  consider "x = 0" | "0 < x" | "x < 0" by linarith
  then show ?thesis
  proof cases
    case 1
    then show ?thesis by simp
  next
    case 2
    from mt(2) have "m < 2 ^ 53" by simp
    from round_double_exact_pos [OF 2 mt(1) this mt(3)] show ?thesis .
  next
    case 3
    then have pos: "0 < - x" by simp
    have "- x = of_int (- m) * pow2 t" by (simp add: mt(1))
    moreover from mt(2) have "- m < 2 ^ 53" by simp
    ultimately have "round_double (- x) = - x"
      using round_double_exact_pos [OF pos _ _ mt(3)] by blast
    then show ?thesis by (simp add: round_double_minus)
  qed
qed

lemma representable_of_int: "\<bar>n\<bar> < 2 ^ 53 \<Longrightarrow> representable (of_int n)"
  unfolding representable_def
  by (rule exI [of _ n], rule exI [of _ 0]) (simp add: pow2_0)

lemma representable_minus: "representable x \<Longrightarrow> representable (- x)"
  unfolding representable_def
  by (metis abs_minus_cancel mult_minus_left of_int_minus)

lemma round_double_upper:
  assumes "0 < x"
  shows "round_double x \<le> pow2 (ilog2 x + 1)"
proof -
  define L where "L = ilog2 x"
  define e where "e = max (L - 52) (- 1074)"
  note b = ilog2_bounds [OF assms, folded L_def]
  have rd: "round_double x = of_int (round_half_even (x / pow2 e)) * pow2 e"
    by (simp add: round_double_pos [OF assms] e_def L_def)
  have y: "x / pow2 e < pow2 (L + 1 - e)"
    using b(2) by (simp add: pow2_diff divide_strict_right_mono)
  show ?thesis
  proof (cases "0 \<le> L + 1 - e")
    case True
    then have "pow2 (L + 1 - e) = of_int (2 ^ nat (L + 1 - e))" by (rule pow2_nat)
    with y have "round_half_even (x / pow2 e) \<le> 2 ^ nat (L + 1 - e)"
      by (simp add: round_half_even_le)
    then have "(of_int (round_half_even (x / pow2 e)) :: rat) \<le> of_int (2 ^ nat (L + 1 - e))"
      by (simp only: of_int_le_iff)
    also have "\<dots> = pow2 (L + 1 - e)" using True by (simp only: pow2_nat)
    finally have "round_double x \<le> pow2 (L + 1 - e) * pow2 e"
      unfolding rd using pow2_pos [of e] by (simp add: mult_right_mono)
    then show ?thesis by (simp add: pow2_add [symmetric] L_def)
  next
    case False
    then have "pow2 (L + 1 - e) \<le> pow2 (- 1)" by (simp add: pow2_le_iff)
    also have "pow2 (- 1) = 1 / 2" by (simp add: pow2_def)
    finally have "x / pow2 e < 1 / 2" using y by linarith
    moreover have "of_int (round_half_even (x / pow2 e)) \<le> x / pow2 e + 1 / 2"
      by (rule round_half_even_bounds)
    ultimately have "(of_int (round_half_even (x / pow2 e)) :: rat) < 1" by linarith
    then have "round_half_even (x / pow2 e) < 1" by (simp only: of_int_less_1_iff)
    then have "(of_int (round_half_even (x / pow2 e)) :: rat) \<le> 0" by simp
    then have "round_double x \<le> 0"
      unfolding rd by (simp add: mult_le_0_iff)
    also have "\<dots> \<le> pow2 (L + 1)" by simp
    finally show ?thesis by (simp add: L_def)
  qed
qed

lemma round_double_nonneg:
  assumes "0 \<le> x"
  shows "0 \<le> round_double x"
proof (cases "x = 0")
  case False
  with assms have pos: "0 < x" by simp
  define e where "e = max (ilog2 x - 52) (- 1074)"
  have "of_int 0 \<le> x / pow2 e" using pos by simp
  then have "0 \<le> round_half_even (x / pow2 e)" by (rule round_half_even_ge)
  then show ?thesis
    by (simp add: round_double_pos [OF pos] e_def [symmetric])
qed simp

lemma round_double_lower:
  assumes "0 < x" "- 1022 \<le> ilog2 x"
  shows "pow2 (ilog2 x) \<le> round_double x"
proof -
  define L where "L = ilog2 x"
  from assms(2) have e: "max (L - 52) (- 1074) = L - 52" by (simp add: L_def)
  note b = ilog2_bounds [OF assms(1), folded L_def]
  have rd: "round_double x = of_int (round_half_even (x / pow2 (L - 52))) * pow2 (L - 52)"
    by (simp add: round_double_pos [OF assms(1)] L_def [symmetric] e)
  have "pow2 52 = pow2 L / pow2 (L - 52)" by (simp add: pow2_diff [symmetric])
  also have "\<dots> \<le> x / pow2 (L - 52)"
    by (rule divide_right_mono) (use b(1) in simp_all)
  finally have "of_int (2 ^ 52) \<le> x / pow2 (L - 52)" by (simp add: pow2_numeral)
  then have "2 ^ 52 \<le> round_half_even (x / pow2 (L - 52))" by (rule round_half_even_ge)
  then have "(of_int (2 ^ 52) :: rat) \<le> of_int (round_half_even (x / pow2 (L - 52)))"
    by (simp only: of_int_le_iff)
  then have "pow2 52 * pow2 (L - 52) \<le> round_double x"
    unfolding rd by (simp add: pow2_numeral mult_right_mono)
  then show ?thesis by (simp add: pow2_add [symmetric] L_def)
qed

lemma round_double_representable: "representable (round_double x)"
proof -
  have pos: "representable (round_double x)" if "0 < x" for x
  proof -
    define L where "L = ilog2 x"
    define e where "e = max (L - 52) (- 1074)"
    define m where "m = round_half_even (x / pow2 e)"
    note b = ilog2_bounds [OF that, folded L_def]
    have rd: "round_double x = of_int m * pow2 e"
      by (simp add: round_double_pos [OF that] e_def L_def m_def)
    have "x / pow2 e < pow2 (L + 1 - e)"
      using b(2) by (simp add: pow2_diff divide_strict_right_mono)
    also have "\<dots> \<le> pow2 53" by (simp add: pow2_le_iff e_def)
    finally have "x / pow2 e \<le> of_int (2 ^ 53)" by (simp add: pow2_numeral)
    then have m_le: "m \<le> 2 ^ 53" unfolding m_def by (rule round_half_even_le)
    have "of_int 0 \<le> x / pow2 e" using that by simp
    then have m_ge: "0 \<le> m" unfolding m_def by (rule round_half_even_ge)
    have e_ge: "- 1074 \<le> e" by (simp add: e_def)
    show ?thesis
    proof (cases "m = 2 ^ 53")
      case True
      have "pow2 1 = 2" by (simp add: pow2_def)
      then have "round_double x = of_int (2 ^ 52) * pow2 (e + 1)"
        by (simp add: rd True pow2_add)
      moreover have "\<bar>2 ^ 52 :: int\<bar> < 2 ^ 53" by simp
      moreover have "- 1074 \<le> e + 1" using e_ge by simp
      ultimately show ?thesis unfolding representable_def by blast
    next
      case False
      with m_le m_ge have "\<bar>m\<bar> < 2 ^ 53" by simp
      with rd e_ge show ?thesis unfolding representable_def by blast
    qed
  qed
  consider "x = 0" | "0 < x" | "x < 0" by linarith
  then show ?thesis
  proof cases
    case 1
    then show ?thesis using representable_of_int [of 0] by simp
  next
    case 2
    then show ?thesis by (rule pos)
  next
    case 3
    then have "representable (round_double (- x))" by (simp add: pos)
    then show ?thesis
      using representable_minus [of "round_double (- x)"] by (simp add: round_double_minus)
  qed
qed

lemma to_double_Inr: "to_double x = Inr y \<Longrightarrow> y = round_double x"
  by (auto simp: to_double_def Let_def split: if_splits)

lemma to_double_Inl: "to_double x = Inl e \<Longrightarrow> e = OverflowError"
  by (auto simp: to_double_def Let_def split: if_splits)

lemma abs_round_double: "\<bar>round_double x\<bar> = round_double \<bar>x\<bar>"
proof (cases "x = 0")
  case False
  have "0 \<le> round_double \<bar>x\<bar>" by (simp add: round_double_nonneg)
  with False show ?thesis
    by (subst round_double_abs) (simp add: abs_mult)
qed simp

lemma to_double_bounded:
  assumes "\<bar>x\<bar> < pow2 1023"
  shows "to_double x = Inr (round_double x)"
proof (cases "round_double x = 0")
  case True
  then show ?thesis by (simp add: to_double_def)
next
  case False
  define y where "y = \<bar>round_double x\<bar>"
  from False have ypos: "0 < y" by (simp add: y_def)
  from False have xpos: "0 < \<bar>x\<bar>" by auto
  note bx = ilog2_bounds [OF xpos] and per = ilog2_bounds [OF ypos]
  from bx(1) assms have "pow2 (ilog2 \<bar>x\<bar>) < pow2 1023" by linarith
  then have "ilog2 \<bar>x\<bar> + 1 \<le> 1023" by (simp add: pow2_less_iff)
  then have "pow2 (ilog2 \<bar>x\<bar> + 1) \<le> pow2 1023" by (simp only: pow2_le_iff)
  moreover have "y \<le> pow2 (ilog2 \<bar>x\<bar> + 1)"
    unfolding y_def abs_round_double by (rule round_double_upper [OF xpos])
  ultimately have "pow2 (ilog2 y) < pow2 1024"
    using per(1) pow2_strict_mono [of 1023 1024] by linarith
  then have "ilog2 y < 1024" by (simp add: pow2_less_iff)
  then show ?thesis by (simp add: to_double_def y_def)
qed

lemma representable_2_53: "representable (2 ^ 53)" "representable (- (2 ^ 53))"
proof -
  have "pow2 1 = 2" by (simp add: pow2_def)
  then have "(2 ^ 53 :: rat) = of_int (2 ^ 52) * pow2 1" by simp
  moreover have "\<bar>2 ^ 52 :: int\<bar> < 2 ^ 53" "- 1074 \<le> (1 :: int)" by simp_all
  ultimately show "representable (2 ^ 53)" unfolding representable_def by blast
  then show "representable (- (2 ^ 53))" by (rule representable_minus)
qed

lemma to_double_of_int:
  assumes "\<bar>n\<bar> \<le> 2 ^ 53"
  shows "to_double (of_int n) = Inr (of_int n)"
proof -
  have rep: "representable (of_int n)"
  proof (cases "\<bar>n\<bar> < 2 ^ 53")
    case True
    then show ?thesis by (rule representable_of_int)
  next
    case False
    with assms have "n = 2 ^ 53 \<or> n = - (2 ^ 53)" by linarith
    then show ?thesis using representable_2_53 by auto
  qed
  have "\<bar>of_int n :: rat\<bar> = of_int \<bar>n\<bar>" by simp
  also have "\<dots> \<le> of_int (2 ^ 53)" using assms by (simp only: of_int_le_iff)
  also have "\<dots> = pow2 53" by (simp add: pow2_numeral)
  also have "\<dots> < pow2 1023" by (simp add: pow2_less_iff)
  finally have "to_double (of_int n) = Inr (round_double (of_int n))"
    by (rule to_double_bounded)
  with rep show ?thesis by (simp add: round_double_exact)
qed

lemma representable_div_1024:
  assumes "representable x" "1024 \<le> x"
  shows "representable (x / 1024)"
proof -
  from assms(1) obtain m t where mt: "x = of_int m * pow2 t" "\<bar>m\<bar> < 2 ^ 53" "- 1074 \<le> t"
    by (auto simp: representable_def)
  have "pow2 10 = 1024" by (simp add: pow2_numeral)
  then have "x / 1024 = of_int m * pow2 (t - 10)"
    by (simp add: mt(1) pow2_diff)
  moreover have "- 1074 \<le> t - 10"
  proof (rule ccontr)
    assume "\<not> - 1074 \<le> t - 10"
    then have "t \<le> - 53" by simp
    then have "pow2 t \<le> pow2 (- 53)" by (simp only: pow2_le_iff)
    moreover have "of_int m \<le> (pow2 53 :: rat)"
      using mt(2) by (simp add: pow2_numeral)
    moreover have "0 \<le> (of_int m :: rat)"
    proof -
      from assms(2) mt(1) have "0 < of_int m * pow2 t" by simp
      then show ?thesis using pow2_pos [of t] by (simp add: zero_less_mult_iff)
    qed
    ultimately have "of_int m * pow2 t \<le> pow2 53 * pow2 (- 53)"
      by (intro mult_mono) simp_all
    also have "\<dots> = 1" by (simp add: pow2_add [symmetric] pow2_0)
    finally show False using assms(2) mt(1) by simp
  qed
  ultimately show ?thesis using mt(2) unfolding representable_def by blast
qed

lemma format_size_loop_float:
  assumes "representable x"
  shows "format_size_loop us (PyFloat x) =
    Inr (format_2f (x / 1024 ^ steps (length us) x) @ '' '' @
         (us @ [''PB'']) ! steps (length us) x)"
  using assms
proof (induction us arbitrary: x)
  case Nil
  then show ?case by (simp add: format_number_def)
next
  case (Cons u us)
  show ?case
  proof (cases "x < 1024")
    case True
    then show ?thesis by (simp add: format_number_def)
  next
    case False
    then have rep: "representable (x / 1024)"
      using Cons.prems by (simp add: representable_div_1024)
    then have "div_1024 (PyFloat x) = Inr (PyFloat (x / 1024))"
      by (simp only: div_1024_def float_of.simps sum.case round_double_exact)
    with False Cons.IH [OF rep] show ?thesis
      by simp
  qed
qed

lemma round_double_int_less_1024:
  "(round_double (of_int n) < 1024) = (n < 1024)"
proof -
  consider "\<bar>n\<bar> \<le> 2 ^ 53" | "2 ^ 53 < n" | "n < - (2 ^ 53)" by linarith
  then show ?thesis
  proof cases
    case 1
    from to_double_Inr [OF to_double_of_int [OF 1]]
    have "round_double (of_int n) = of_int n" by simp
    then show ?thesis by simp
  next
    case 2
    define x :: rat where "x = of_int n"
    from 2 have big: "pow2 53 < x"
      unfolding x_def pow2_numeral by (metis of_int_less_iff of_int_numeral of_int_power)
    then have pos: "0 < x" using pow2_pos [of 53] by linarith
    note b = ilog2_bounds [OF pos]
    from big b(2) have "pow2 53 < pow2 (ilog2 x + 1)" by linarith
    then have L: "53 \<le> ilog2 x" by (simp add: pow2_less_iff)
    then have "pow2 (ilog2 x) \<le> round_double x"
      by (intro round_double_lower [OF pos]) simp
    moreover from L have "pow2 53 \<le> pow2 (ilog2 x)" by (simp only: pow2_le_iff)
    moreover have "(1024 :: rat) \<le> pow2 53" by (simp add: pow2_numeral)
    ultimately have "\<not> round_double x < 1024" by linarith
    with 2 show ?thesis by (simp add: x_def)
  next
    case 3
    then have "0 \<le> (of_int (- n) :: rat)" by simp
    then have "0 \<le> round_double (of_int (- n))" by (rule round_double_nonneg)
    then have "round_double (of_int n) \<le> 0"
      using round_double_minus [of "of_int n"] by simp
    with 3 show ?thesis by simp
  qed
qed

lemma unit_index_steps:
  "unit_index x = steps (length [''B'', ''KB'', ''MB'', ''GB'', ''TB'']) x"
  by (simp add: unit_index_def)

lemma unit_names_append: "unit_names = [''B'', ''KB'', ''MB'', ''GB'', ''TB''] @ [''PB'']"
  by (simp add: unit_names_def)

lemma format_size_loop_int:
  assumes "to_double (of_int n) = Inr x"
  shows "format_size_loop (u # us) (PyInt n) = format_size_loop (u # us) (PyFloat x)"
proof -
  from assms have x: "x = round_double (of_int n)" by (rule to_double_Inr)
  then have "(n < 1024) = (x < 1024)" by (simp add: round_double_int_less_1024)
  with assms show ?thesis
    by (simp add: format_number_def div_1024_def)
qed

lemma format_size_Inr:
  assumes "to_double (of_int n) = Inr x"
  shows "format_size n =
    Inr (format_2f (x / 1024 ^ unit_index x) @ '' '' @ unit_names ! unit_index x)"
proof -
  from assms have "x = round_double (of_int n)" by (rule to_double_Inr)
  then have "representable x" by (simp add: round_double_representable)
  then show ?thesis
    by (simp only: format_size_def format_size_loop_int [OF assms] format_size_loop_float
        unit_index_steps unit_names_append)
qed

lemma format_size_Inl:
  assumes "to_double (of_int n) = Inl e"
  shows "format_size n = Inl e"
  using assms by (simp add: format_size_def format_number_def div_1024_def)

lemma digits_small: "d < 10 \<Longrightarrow> digits d = [''0123456789'' ! nat d]"
  by (subst digits.simps) simp

lemma format_2f_of_int:
  "format_2f (of_int n) = (if n < 0 then ''-'' else []) @ digits \<bar>n\<bar> @ ''.00''"
proof -
  have "\<bar>of_int n :: rat\<bar> * 100 = of_int (\<bar>n\<bar> * 100)" by simp
  then have "round_half_even (\<bar>of_int n :: rat\<bar> * 100) = \<bar>n\<bar> * 100"
    by (simp only: round_half_even_of_int)
  then show ?thesis
    by (simp add: format_2f_def Let_def digits_small)
qed

section \<open>Exceptions of the report\<close>

text \<open>
  \<^verbatim>\<open>format_size\<close> raises nothing but \<^verbatim>\<open>OverflowError\<close>, and nothing below \<open>2\<^sup>1\<^sup>0\<^sup>2\<^sup>3\<close>; the
  division of a size by a positive total that is not smaller raises nothing; on a total of
  zero the first row raises \<^verbatim>\<open>ZeroDivisionError\<close>.
\<close>

lemma format_size_cases:
  obtains x where "to_double (of_int n) = Inr x"
      "format_size n = Inr (format_2f (x / 1024 ^ unit_index x) @ '' '' @ unit_names ! unit_index x)"
    | "to_double (of_int n) = Inl OverflowError" "format_size n = Inl OverflowError"
proof (cases "to_double (of_int n)")
  case (Inl e)
  then have "e = OverflowError" by (rule to_double_Inl)
  with Inl that(2) show ?thesis by (simp add: format_size_Inl)
next
  case (Inr x)
  with that(1) show ?thesis by (simp add: format_size_Inr)
qed

lemma format_size_not_zero_division: "format_size n \<noteq> Inl ZeroDivisionError"
  by (rule format_size_cases [of n]) simp_all

lemma format_size_bounded:
  assumes "\<bar>n\<bar> < 2 ^ 1023"
  shows "\<exists>s. format_size n = Inr s"
proof -
  have "\<bar>of_int n :: rat\<bar> = of_int \<bar>n\<bar>" by simp
  also have "\<dots> < of_int (2 ^ 1023)" using assms by (simp only: of_int_less_iff)
  also have "\<dots> = pow2 1023" by (simp add: pow2_numeral)
  finally have "to_double (of_int n) = Inr (round_double (of_int n))"
    by (rule to_double_bounded)
  then show ?thesis by (simp add: format_size_Inr)
qed

lemma py_truediv_fraction:
  assumes "0 \<le> a" "a \<le> b" "0 < b"
  shows "\<exists>r. py_truediv a b = Inr r"
proof -
  have "\<bar>of_int a / of_int b :: rat\<bar> \<le> 1"
    using assms by simp
  also have "\<dots> < pow2 1023"
    using pow2_strict_mono [of 0 1023] by (simp add: pow2_0)
  finally have "to_double (of_int a / of_int b) = Inr (round_double (of_int a / of_int b))"
    by (rule to_double_bounded)
  with assms(3) show ?thesis by (simp add: py_truediv_def)
qed

lemma py_truediv_not_zero_division:
  "b \<noteq> 0 \<Longrightarrow> py_truediv a b \<noteq> Inl ZeroDivisionError"
  using to_double_Inl [of "of_int a / of_int b" ZeroDivisionError]
  by (auto simp: py_truediv_def)

lemma print_rows_zero:
  "rows \<noteq> [] \<Longrightarrow> print_rows 0 rows = ([], Some ZeroDivisionError)"
  by (cases rows) (auto simp: py_truediv_def)

lemma print_rows_not_zero_division:
  "tot \<noteq> 0 \<Longrightarrow> snd (print_rows tot rows) \<noteq> Some ZeroDivisionError"
proof (induction rows)
  case Nil
  then show ?case by simp
next
  case (Cons p rows)
  obtain t n where p: "p = (t, n)" by (cases p)
  from Cons.prems have d: "py_truediv (int n) (int tot) \<noteq> Inl ZeroDivisionError"
    by (simp add: py_truediv_not_zero_division)
  show ?case
    using Cons.IH [OF Cons.prems] d format_size_not_zero_division [of "int n"]
    by (auto simp: p Let_def split: sum.splits prod.splits)
qed


lemma set_sorted_items [simp]: "set (sorted_items d) = set d"
  by (simp add: sorted_items_def)

lemma sorted_items_Nil [simp]: "sorted_items d = [] \<longleftrightarrow> d = []"
  by (metis set_sorted_items set_empty)

lemma total_zero_iff:
  "sum_list (map snd d) = 0 \<longleftrightarrow> (\<forall>p \<in> set d. snd p = (0::nat))"
  by (induction d) auto

lemma display_results_zero_total:
  assumes "d \<noteq> []" "sum_list (map snd d) = 0"
  shows "display_results d = (header_lines, Some ZeroDivisionError)"
  unfolding display_results_def Let_def assms(2)
  using assms(1) by (simp add: print_rows_zero)

lemma display_results_not_zero_division:
  assumes "sum_list (map snd d) \<noteq> 0"
  shows "snd (display_results d) \<noteq> Some ZeroDivisionError"
proof -
  from assms have "d \<noteq> []" by auto
  then show ?thesis
    using print_rows_not_zero_division [OF assms, of "sorted_items d"]
      format_size_not_zero_division [of "int (sum_list (map snd d))"]
    by (auto simp: display_results_def Let_def split: prod.splits option.splits sum.splits)
qed


section \<open>Claims about the formatting of a size\<close>

lemma format_2f_shape:
  "\<exists>s a b. format_2f y = s @ [CHR ''.'', a, b] \<and>
     a \<in> set ''0123456789'' \<and> b \<in> set ''0123456789''"
proof -
  define n where "n = round_half_even (\<bar>y\<bar> * 100)"
  have d1: "digits (n mod 100 div 10) = [''0123456789'' ! nat (n mod 100 div 10)]"
    by (rule digits_small) simp
  have d2: "digits (n mod 10) = [''0123456789'' ! nat (n mod 10)]"
    by (rule digits_small) simp
  have "nat (n mod 100 div 10) < 10" "nat (n mod 10) < 10" by simp_all
  then have "''0123456789'' ! nat (n mod 100 div 10) \<in> set ''0123456789''"
    "''0123456789'' ! nat (n mod 10) \<in> set ''0123456789''"
    by (simp_all only: nth_mem length_Cons list.size)
  moreover have "format_2f y = ((if y < 0 then ''-'' else []) @ digits (n div 100)) @
      [CHR ''.'', ''0123456789'' ! nat (n mod 100 div 10), ''0123456789'' ! nat (n mod 10)]"
    by (simp add: format_2f_def Let_def n_def [symmetric] d1 d2)
  ultimately show ?thesis by blast
qed

lemma format_size_examples:
  "format_size 0 = Inr ''0.00 B''"
  "format_size 1023 = Inr ''1023.00 B''"
  "format_size 1024 = Inr ''1.00 KB''"
  "format_size 1536 = Inr ''1.50 KB''"
  "format_size (1024 ^ 4) = Inr ''1.00 TB''"
  by code_simp+

text \<open>
  C4. \<^verbatim>\<open>format_size\<close> divides by 1024 while the value is at least 1024 and a unit of the
  sequence B, KB, MB, GB, TB remains, and falls back to PB after the fifth division: for
  the float \<open>x\<close> of its argument, the unit is the one numbered \<open>unit_index x\<close>, which counts
  the thresholds \<open>1024\<^sup>k\<close> that \<open>x\<close> reaches, up to 5, and the value printed is
  \<open>x / 1024\<^sup>k\<close>, exactly. The float of an integer of absolute value at most \<open>2\<^sup>5\<^sup>3\<close> is that
  integer. The output is the scaled value with two decimal digits, a space and the unit.
  The five values of the specification are as stated.
\<close>

theorem format_size_units:
  "(to_double (of_int n) = Inr x \<longrightarrow>
      format_size n =
        Inr (format_2f (x / 1024 ^ unit_index x) @ '' '' @ unit_names ! unit_index x)) \<and>
   (\<bar>n\<bar> \<le> 2 ^ 53 \<longrightarrow> to_double (of_int n) = Inr (of_int n)) \<and>
   (\<exists>s a b. format_2f y = s @ [CHR ''.'', a, b] \<and>
      a \<in> set ''0123456789'' \<and> b \<in> set ''0123456789'') \<and>
   format_size 0 = Inr ''0.00 B'' \<and>
   format_size 1023 = Inr ''1023.00 B'' \<and>
   format_size 1024 = Inr ''1.00 KB'' \<and>
   format_size 1536 = Inr ''1.50 KB'' \<and>
   format_size (1024 ^ 4) = Inr ''1.00 TB''"
  using format_size_Inr [of n x] to_double_of_int [of n] format_2f_shape [of y]
    format_size_examples
  by blast

theorem format_size_units_witness:
  "to_double (of_int 5242880) = Inr 5242880 \<and> unit_index 5242880 = 2 \<and>
   unit_names ! 2 = ''MB'' \<and>
   format_size 5242880 = Inr (format_2f (5242880 / 1024 ^ 2) @ '' MB'')"
proof -
  have a: "\<bar>5242880 :: int\<bar> \<le> 2 ^ 53" by simp
  from format_size_units [of 5242880 5242880] a
  have b: "to_double (of_int 5242880) = Inr (of_int 5242880)" by blast
  then have c: "to_double (of_int 5242880) = Inr 5242880" by simp
  have d: "unit_index 5242880 = 2" by (simp add: unit_index_def)
  have e: "unit_names ! 2 = ''MB''" by (simp add: unit_names_def)
  from format_size_units [of 5242880 5242880] c
  have "format_size 5242880 =
      Inr (format_2f (5242880 / 1024 ^ unit_index 5242880) @ '' '' @
           unit_names ! unit_index 5242880)" by blast
  then have "format_size 5242880 = Inr (format_2f (5242880 / 1024 ^ 2) @ '' MB'')"
    unfolding d e by simp
  with c d e show ?thesis by blast
qed

text \<open>
  C10, as the code has it. An integer below 1024, negative ones included, is not scaled: the
  first comparison succeeds and the float of the integer is printed with two decimals and
  the unit B. From \<open>- 2\<^sup>5\<^sup>3\<close> upwards that float is the integer itself and the output is the
  two-decimal rendering of the integer.
\<close>

theorem format_size_below_1024:
  assumes "n < 1024"
  shows "(\<forall>x. to_double (of_int n) = Inr x \<longrightarrow> format_size n = Inr (format_2f x @ '' B'')) \<and>
    (- (2 ^ 53) \<le> n \<longrightarrow>
       format_size n = Inr ((if n < 0 then ''-'' else []) @ digits \<bar>n\<bar> @ ''.00 B''))"
proof -
  have a: "format_size n = Inr (format_2f x @ '' B'')" if x: "to_double (of_int n) = Inr x" for x
  proof -
    from x have "x = round_double (of_int n)" by (rule to_double_Inr)
    with assms have "x < 1024" by (simp add: round_double_int_less_1024)
    then have "unit_index x = 0" by (simp add: unit_index_def)
    with format_size_Inr [OF x] show ?thesis by (simp add: unit_names_def)
  qed
  have b: "format_size n = Inr ((if n < 0 then ''-'' else []) @ digits \<bar>n\<bar> @ ''.00 B'')"
    if "- (2 ^ 53) \<le> n"
  proof -
    from that assms have "\<bar>n\<bar> \<le> 2 ^ 53" by simp
    then have "to_double (of_int n) = Inr (of_int n)" by (rule to_double_of_int)
    then have "format_size n = Inr (format_2f (of_int n) @ '' B'')" by (rule a)
    then show ?thesis by (simp add: format_2f_of_int)
  qed
  from a b show ?thesis by blast
qed

theorem format_size_below_1024_witness:
  "format_size (- 5) = Inr ''-5.00 B''"
  using format_size_below_1024 [of "- 5"] by (simp add: digits_small)

lemma to_double_overflow: "to_double (- pow2 1024) = Inl OverflowError"
proof -
  have "pow2 1024 = of_int 1 * pow2 1024" by simp
  moreover have "\<bar>1 :: int\<bar> < 2 ^ 53" "- 1074 \<le> (1024 :: int)" by simp_all
  ultimately have "representable (pow2 1024)"
    unfolding representable_def by blast
  then have "representable (- pow2 1024)" by (rule representable_minus)
  then have r: "round_double (- pow2 1024) = - pow2 1024" by (rule round_double_exact)
  have "ilog2 (pow2 1024) = 1024"
    by (rule ilog2_unique) (simp_all add: pow2_less_iff)
  moreover have "- pow2 1024 \<noteq> 0" "\<bar>- pow2 1024\<bar> = pow2 1024"
    using pow2_pos [of 1024] by linarith+
  ultimately show ?thesis by (simp only: to_double_def r Let_def) simp
qed

text \<open>
  C10 as stated fails below \<open>- 2\<^sup>5\<^sup>3\<close>: the float of \<open>- 2\<^sup>5\<^sup>3 - 1\<close> is \<open>- 2\<^sup>5\<^sup>3\<close>, so the digits
  printed are not those of the argument, and on \<open>- 2\<^sup>1\<^sup>0\<^sup>2\<^sup>4\<close> the conversion to a float raises
  \<^verbatim>\<open>OverflowError\<close>, so \<^verbatim>\<open>format_size\<close> does not return.
\<close>

theorem format_size_large_negative:
  "format_size (- 9007199254740993) = Inr ''-9007199254740992.00 B'' \<and>
   format_size (- (2 ^ 1024)) = Inl OverflowError"
proof -
  have "format_size (- 9007199254740993) = Inr ''-9007199254740992.00 B''"
    by code_simp
  moreover have "of_int (- (2 ^ 1024)) = - pow2 1024"
    by (simp only: pow2_numeral of_int_minus of_int_power of_int_numeral)
  then have "to_double (of_int (- (2 ^ 1024))) = Inl OverflowError"
    by (simp only: to_double_overflow)
  then have "format_size (- (2 ^ 1024)) = Inl OverflowError"
    by (rule format_size_Inl)
  ultimately show ?thesis by blast
qed

section \<open>The report of a positive total\<close>

text \<open>
  When the total is positive (and below \<open>2\<^sup>1\<^sup>0\<^sup>2\<^sup>3\<close>, so that no size overflows a float),
  \<^verbatim>\<open>display_results\<close> raises nothing and prints the header, one row for each entry, in the
  order of decreasing size with entries of equal size in dictionary order, and the total
  lines.
\<close>

lemma print_rows_report:
  assumes "0 < tot" "tot < 2 ^ 1023" "\<forall>p \<in> set rows. snd p \<le> tot"
  shows "print_rows tot rows = (map (report_row tot) rows, None)"
  using assms(3)
proof (induction rows)
  case Nil
  then show ?case by simp
next
  case (Cons p rows)
  obtain t n where p: "p = (t, n)" by (cases p)
  with Cons.prems have n: "n \<le> tot" by simp
  with assms(1) obtain r where r: "py_truediv (int n) (int tot) = Inr r"
    using py_truediv_fraction [of "int n" "int tot"] by auto
  from n assms(2) have "\<bar>int n\<bar> < 2 ^ 1023"
    by (metis abs_of_nat le_less_trans of_nat_le_iff of_nat_less_iff of_nat_numeral of_nat_power)
  then obtain s where s: "format_size (int n) = Inr s"
    using format_size_bounded by blast
  from Cons.IH Cons.prems have "print_rows tot rows = (map (report_row tot) rows, None)"
    by simp
  then show ?case
    by (simp add: p r s Let_def report_row_def formatted_def percentage_def)
qed

lemma display_results_report:
  assumes "0 < sum_list (map snd d)" "sum_list (map snd d) < 2 ^ 1023"
  shows "display_results d =
      (header_lines @ map (report_row (sum_list (map snd d))) (sorted_items d) @
       total_lines (formatted (sum_list (map snd d))), None)"
    and "mset (sorted_items d) = mset d"
    and "sorted (map (\<lambda>x. - int (snd x)) (sorted_items d))"
proof -
  let ?tot = "sum_list (map snd d)"
  from assms(1) have ne: "d \<noteq> []" by auto
  have "\<forall>p \<in> set (sorted_items d). snd p \<le> ?tot"
    using member_le_sum_list [of _ "map snd d"] by auto
  from print_rows_report [OF assms this]
  have rows: "print_rows ?tot (sorted_items d) = (map (report_row ?tot) (sorted_items d), None)" .
  from assms(2) have "\<bar>int ?tot\<bar> < 2 ^ 1023"
    by (metis abs_of_nat of_nat_less_iff of_nat_numeral of_nat_power)
  then obtain s where "format_size (int ?tot) = Inr s"
    using format_size_bounded by blast
  with rows ne show "display_results d =
      (header_lines @ map (report_row ?tot) (sorted_items d) @ total_lines (formatted ?tot), None)"
    by (simp add: display_results_def Let_def formatted_def)
  show "mset (sorted_items d) = mset d"
    by (simp add: sorted_items_def)
  show "sorted (map (\<lambda>x. - int (snd x)) (sorted_items d))"
    by (simp add: sorted_items_def)
qed

lemma sorted_items_stable:
  "filter (\<lambda>x. snd x = n) (sorted_items d) = filter (\<lambda>x. snd x = n) d"
  using sort_key_stable [of "\<lambda>x. - int (snd x)" "- int n" d]
  by (simp add: sorted_items_def)

section \<open>Claims about the report and the program\<close>

text \<open>
  C5, at a dictionary that is not empty and whose total is zero (a directory that holds
  only files of zero bytes, which the classifier labels alike): \<^verbatim>\<open>display_results\<close> prints the
  header and raises \<^verbatim>\<open>ZeroDivisionError\<close> on the first row; no row and no total line is
  printed.
\<close>

theorem display_results_only_empty_files:
  "display_results [(''empty'', 0)] = (header_lines, Some ZeroDivisionError)"
  by (rule display_results_zero_total) simp_all

text \<open>
  C9. The sizes are byte counts, so none is negative. For a dictionary that is not empty,
  the division of each size by the total succeeds for every entry exactly when some value is
  positive, and \<^verbatim>\<open>display_results\<close> raises \<^verbatim>\<open>ZeroDivisionError\<close> exactly when every value is
  zero: the test for emptiness does not guard the division.
\<close>

theorem division_guard:
  assumes "type_sizes \<noteq> []"
  shows "((\<exists>p \<in> set type_sizes. 0 < snd p) \<longleftrightarrow>
          (\<forall>p \<in> set type_sizes.
             \<exists>r. py_truediv (int (snd p)) (int (sum_list (map snd type_sizes))) = Inr r)) \<and>
         ((\<forall>p \<in> set type_sizes. snd p = 0) \<longleftrightarrow>
          snd (display_results type_sizes) = Some ZeroDivisionError)"
proof -
  let ?tot = "sum_list (map snd type_sizes)"
  have zero: "?tot = 0 \<longleftrightarrow> (\<forall>p \<in> set type_sizes. snd p = 0)"
    by (rule total_zero_iff)
  have a: "\<forall>p \<in> set type_sizes. \<exists>r. py_truediv (int (snd p)) (int ?tot) = Inr r"
    if "\<exists>p \<in> set type_sizes. 0 < snd p"
  proof
    fix p assume p: "p \<in> set type_sizes"
    from that obtain q where "q \<in> set type_sizes" "0 < snd q" by blast
    with zero have "?tot \<noteq> 0" by (metis less_not_refl)
    then have "0 < ?tot" by (simp only: neq0_conv)
    moreover from p have "snd p \<le> ?tot"
      using member_le_sum_list [of "snd p" "map snd type_sizes"] by simp
    ultimately show "\<exists>r. py_truediv (int (snd p)) (int ?tot) = Inr r"
      using py_truediv_fraction [of "int (snd p)" "int ?tot"] by simp
  qed
  have b: "\<exists>p \<in> set type_sizes. 0 < snd p"
    if "\<forall>p \<in> set type_sizes. \<exists>r. py_truediv (int (snd p)) (int ?tot) = Inr r"
  proof (rule ccontr)
    assume "\<not> (\<exists>p \<in> set type_sizes. 0 < snd p)"
    with zero have tot: "?tot = 0" by auto
    from assms obtain p where "p \<in> set type_sizes" by (cases type_sizes) auto
    with that obtain r where "py_truediv (int (snd p)) (int ?tot) = Inr r" by blast
    then show False unfolding tot by (simp add: py_truediv_def)
  qed
  have c: "snd (display_results type_sizes) = Some ZeroDivisionError"
    if "\<forall>p \<in> set type_sizes. snd p = 0"
    using that zero display_results_zero_total [OF assms] by simp
  have d: "\<forall>p \<in> set type_sizes. snd p = 0"
    if "snd (display_results type_sizes) = Some ZeroDivisionError"
    using that zero display_results_not_zero_division [of type_sizes] by blast
  from a b c d show ?thesis by blast
qed

theorem division_guard_witness:
  "snd (display_results [(''empty'', 0), (''unknown'', 0)]) = Some ZeroDivisionError \<and>
   (\<exists>r. py_truediv 2000 4048 = Inr r)"
proof -
  have "snd (display_results [(''empty'', 0), (''unknown'', 0)]) = Some ZeroDivisionError"
    using division_guard [of "[(''empty'', 0), (''unknown'', 0)]"] by simp
  moreover have "\<exists>r. py_truediv 2000 4048 = Inr r"
    using division_guard [of "[(''text'', 2000), (''image'', 2048)]"] by simp
  ultimately show ?thesis by blast
qed






end
